theory Spec2Isabelle
  imports Complex_Main "HOL-Library.Word"
begin

unbundle bit_operations_syntax

section \<open>Values, buffers and errors\<close>

text \<open>
  The token handler of easy-no-password (\<^verbatim>\<open>lib/token_handler.js\<close>) turns a millisecond
  timestamp into a token: the timestamp is written into an 8-byte buffer, the buffer is
  encrypted with Blowfish under a key derived from the user name, and the ciphertext is
  printed in base 62. Validation runs the same steps backwards and compares the recovered
  timestamp with the clock.

  JavaScript numbers that hold timestamps and durations are modelled as \<^typ>\<open>int\<close>. Every
  value \<^verbatim>\<open>Date.getTime()\<close> can return is an integer of magnitude at most 8.64e15, below
  2^53, so differences, remainders and divisions by 2^32 of such values are exact in the
  source as well. The timestamp that \<^verbatim>\<open>_decrypt\<close> rebuilds from a block can be any 64-bit
  number, and the source rebuilds it in double precision: its product and its sums are
  rounded here as they are there. The quotient \<^verbatim>\<open>timestamp / UINT32_CAPACITY\<close> is a
  fraction in the source and a \<^typ>\<open>real\<close> here. A Node.js Buffer is a list of bytes. A
  throw and an error handed to a callback are both the left summand of a result.
\<close>

type_synonym byte = "8 word"
type_synonym buffer = "byte list"

datatype error =
    Error string
  | ERR_OUT_OF_RANGE
  | ERR_BUFFER_OUT_OF_BOUNDS
  | ERR_WRONG_FINAL_BLOCK_LENGTH
  | AssertionError
  | FormatError

text \<open>The values the optional constructor argument \<^verbatim>\<open>maxTokenAge\<close> takes.\<close>

datatype jsval = JSUndefined | JSNull | JSNumber int

fun truthy :: "jsval \<Rightarrow> bool" where
  "truthy JSUndefined = False"
| "truthy JSNull = False"
| "truthy (JSNumber n) = (n \<noteq> 0)"

text \<open>\<^verbatim>\<open>a || d\<close> for a number-valued default: the left operand when it is truthy.\<close>

fun or_default :: "jsval \<Rightarrow> int \<Rightarrow> int" where
  "or_default (JSNumber n) d = (if n \<noteq> 0 then n else d)"
| "or_default JSUndefined d = d"
| "or_default JSNull d = d"

text \<open>
  \<^verbatim>\<open>async.waterfall([f, g], next)\<close>: the result of the first task is passed to the second;
  an error ends the chain and is what \<^verbatim>\<open>next\<close> receives.
\<close>

definition waterfall :: "error + 'a \<Rightarrow> ('a \<Rightarrow> error + 'b) \<Rightarrow> error + 'b" where
  "waterfall r g = (case r of Inl err \<Rightarrow> Inl err | Inr x \<Rightarrow> g x)"

text \<open>\<^verbatim>\<open>a % b\<close> on integers: the remainder has the sign of the dividend.\<close>

definition js_rem :: "int \<Rightarrow> int \<Rightarrow> int" where
  "js_rem a b = sgn a * (\<bar>a\<bar> mod \<bar>b\<bar>)"

text \<open>
  A JavaScript number is an IEEE 754 double: an integer with more than 53 significant bits
  is rounded to the nearest one with 53, and to the one with an even last bit when two are
  equally near. \<open>bit_length\<close> counts the bits of a natural number; \<open>to_double\<close> is the
  integer a number holds after an integer result is stored in it (far below the overflow
  to infinity), and an integer is the value of a number when \<open>to_double\<close> leaves it as it
  is. \<^verbatim>\<open>a + b\<close> and \<^verbatim>\<open>a * b\<close> on integer-valued numbers round the exact result.
\<close>

function bit_length :: "nat \<Rightarrow> nat" where
  "bit_length n = (if n = 0 then 0 else Suc (bit_length (n div 2)))"
  by pat_completeness auto
termination
  by (relation "measure id") auto

definition to_double :: "int \<Rightarrow> int" where
  "to_double n =
     (let m = nat \<bar>n\<bar>;
          e = bit_length m - 53;
          q = m div 2 ^ e;
          r = m mod 2 ^ e
      in sgn n * int ((if 2 * r < 2 ^ e \<or> (2 * r = 2 ^ e \<and> even q) then q else q + 1) * 2 ^ e))"

definition js_add :: "int \<Rightarrow> int \<Rightarrow> int" where
  "js_add a b = to_double (a + b)"

definition js_mul :: "int \<Rightarrow> int \<Rightarrow> int" where
  "js_mul a b = to_double (a * b)"

subsection \<open>Buffer primitives of the runtime (Node.js 10 and later)\<close>

definition alloc :: "nat \<Rightarrow> buffer" where
  "alloc n = replicate n 0"

definition fill :: "buffer \<Rightarrow> byte \<Rightarrow> buffer" where
  "fill buf b = map (\<lambda>_. b) buf"

text \<open>
  \<^verbatim>\<open>Buffer.from(s, "utf-8")\<close>. A string is given by the bytes of its UTF-8 form, one
  \<^typ>\<open>char\<close> each, so the conversion keeps every byte; the empty string is the only one
  with no bytes.
\<close>

definition Buffer_from :: "string \<Rightarrow> buffer" where
  "Buffer_from s = map (\<lambda>c. word_of_nat (of_char c)) s"

text \<open>
  An access past the end of a buffer is a bounds error when the buffer is shorter than
  the four bytes accessed and a range error of the offset otherwise.
\<close>

definition boundsError :: "buffer \<Rightarrow> error" where
  "boundsError buf = (if length buf < 4 then ERR_BUFFER_OUT_OF_BOUNDS else ERR_OUT_OF_RANGE)"

text \<open>
  \<^verbatim>\<open>buf.writeUInt32BE(value, offset)\<close>: the value is checked against the range of an
  unsigned 32-bit integer as it stands (a fraction above 0xffffffff is out of range), then
  its integer part is stored byte by byte, most significant first. The third argument
  \<^verbatim>\<open>noAssert\<close> of the source is ignored by these versions of the runtime.
\<close>

definition writeUInt32BE :: "buffer \<Rightarrow> real \<Rightarrow> nat \<Rightarrow> error + buffer" where
  "writeUInt32BE buf v offset =
     (if v > 0xffffffff \<or> v < 0 then Inl ERR_OUT_OF_RANGE
      else if length buf < offset + 4 then Inl (boundsError buf)
      else
        let n = \<lfloor>v\<rfloor> in
        Inr (buf[offset + 3 := word_of_int n,
                 offset + 2 := word_of_int (n div 2 ^ 8),
                 offset + 1 := word_of_int (n div 2 ^ 16),
                 offset := word_of_int (n div 2 ^ 24)]))"

text \<open>\<^verbatim>\<open>buf.readUInt32BE(offset)\<close>: four bytes as a number, most significant first.\<close>

definition readUInt32BE :: "buffer \<Rightarrow> nat \<Rightarrow> error + int" where
  "readUInt32BE buf offset =
     (if length buf < offset + 4 then Inl (boundsError buf)
      else Inr (uint (buf ! offset) * 2 ^ 24 + uint (buf ! (offset + 1)) * 2 ^ 16
                + uint (buf ! (offset + 2)) * 2 ^ 8 + uint (buf ! (offset + 3))))"

section \<open>The base-62 codec\<close>

text \<open>
  Modelled from the spec: the module \<^verbatim>\<open>lib/base62.js\<close> that the token handler requires is
  not among the sources. The spec (section 4.1) describes it: the byte sequence is read
  as a big-endian unsigned integer, which is divided by 62 repeatedly, the digits come out
  least significant first and are reversed; the digits are \<^verbatim>\<open>0-9A-Za-z\<close>; an all-zero input
  encodes to a non-empty string; decoding fails with a format error on a character outside
  the alphabet and inverts encoding on the 8-byte sequences the system uses. The spec
  leaves the treatment of leading zero bytes to the implementation. Here the division loop
  runs at least once (so zero is the one digit \<^verbatim>\<open>0\<close>), and decoding pads the bytes of the
  number with leading zero bytes to the 8 bytes of a cipher block.
\<close>

text \<open>Modelled from the spec: the 62 digits, \<^verbatim>\<open>0-9A-Za-z\<close>, in the order of their values.\<close>

definition CHARSET :: string where
  "CHARSET = ''0123456789ABCDEFGHIJKLMNOPQRSTUVWXYZabcdefghijklmnopqrstuvwxyz''"

text \<open>Modelled from the spec: the byte sequence as a big-endian unsigned integer.\<close>

definition toBigInt :: "buffer \<Rightarrow> nat" where
  "toBigInt bytes = foldl (\<lambda>acc b. acc * 256 + unat b) 0 bytes"

text \<open>
  Modelled from the spec: the repeated division by 62, digits least significant first; the
  loop body runs before its test, so that zero has one digit.
\<close>

function digits62 :: "nat \<Rightarrow> nat list" where
  "digits62 n = (if n < 62 then [n] else (n mod 62) # digits62 (n div 62))"
  by pat_completeness auto
termination
  by (relation "measure id") auto

text \<open>Modelled from the spec: \<^verbatim>\<open>base62.encode\<close>, the digits reversed and printed.\<close>

definition base62_encode :: "buffer \<Rightarrow> string" where
  "base62_encode bytes = map (\<lambda>d. CHARSET ! d) (rev (digits62 (toBigInt bytes)))"

text \<open>Modelled from the spec: the value of a digit, none for a character outside the alphabet.\<close>

fun indexOf :: "string \<Rightarrow> char \<Rightarrow> nat option" where
  "indexOf [] c = None"
| "indexOf (x # xs) c = (if x = c then Some 0 else map_option Suc (indexOf xs c))"

text \<open>
  Modelled from the spec: the number a digit string denotes, most significant digit first;
  a character outside the alphabet is a format error.
\<close>

fun fromDigits :: "nat \<Rightarrow> string \<Rightarrow> error + nat" where
  "fromDigits acc [] = Inr acc"
| "fromDigits acc (c # cs) =
     (case indexOf CHARSET c of
        None \<Rightarrow> Inl FormatError
      | Some d \<Rightarrow> fromDigits (acc * 62 + d) cs)"

text \<open>Modelled from the spec: the bytes of a number, most significant first, none for zero.\<close>

function toBytes :: "nat \<Rightarrow> buffer" where
  "toBytes n = (if n = 0 then [] else toBytes (n div 256) @ [word_of_nat (n mod 256)])"
  by pat_completeness auto
termination
  by (relation "measure id") auto

text \<open>Modelled from the spec: leading zero bytes up to a given length.\<close>

definition padStart :: "nat \<Rightarrow> buffer \<Rightarrow> buffer" where
  "padStart n bytes = replicate (n - length bytes) 0 @ bytes"

text \<open>
  Modelled from the spec: \<^verbatim>\<open>base62.decode\<close>, the bytes of the number padded to the 8 bytes
  of a cipher block; a number of 2^64 or more keeps all its bytes.
\<close>

definition base62_decode :: "string \<Rightarrow> error + buffer" where
  "base62_decode s =
     (case fromDigits 0 s of
        Inl err \<Rightarrow> Inl err
      | Inr n \<Rightarrow> Inr (padStart 8 (toBytes n)))"

section \<open>The modules the token handler requires\<close>

text \<open>
  The handler calls \<^verbatim>\<open>base62\<close> and the runtime's \<^verbatim>\<open>crypto\<close> module. Both are arguments of
  the model: \<^verbatim>\<open>crypto.pbkdf2\<close> with the number of its formal parameters (which the source
  inspects), and the Blowfish-CBC transformation of block-aligned data under a key and an
  initialisation vector, in both directions.
\<close>

record modules =
  base62_encode_fn :: "buffer \<Rightarrow> string"
  base62_decode_fn :: "string \<Rightarrow> error + buffer"
  pbkdf2_length :: nat
  pbkdf2 :: "buffer \<Rightarrow> buffer \<Rightarrow> nat \<Rightarrow> nat \<Rightarrow> string option \<Rightarrow> error + buffer"
  bf_encrypt :: "buffer \<Rightarrow> buffer \<Rightarrow> buffer \<Rightarrow> buffer"
  bf_decrypt :: "buffer \<Rightarrow> buffer \<Rightarrow> buffer \<Rightarrow> buffer"

text \<open>
  A cipher object with automatic padding switched off: \<^verbatim>\<open>update\<close> transforms the whole
  blocks of its input, and \<^verbatim>\<open>final\<close> throws when the input was not a multiple of the
  8-byte block and returns the empty buffer otherwise.
\<close>

definition cipher_update :: "(buffer \<Rightarrow> buffer) \<Rightarrow> buffer \<Rightarrow> buffer" where
  "cipher_update f data = f (take (length data - length data mod 8) data)"

definition cipher_final :: "buffer \<Rightarrow> error + buffer" where
  "cipher_final data =
     (if length data mod 8 \<noteq> 0 then Inl ERR_WRONG_FINAL_BLOCK_LENGTH else Inr [])"

section \<open>The token handler\<close>

definition UINT32_CAPACITY :: int where
  "UINT32_CAPACITY = 0xffffffff + 1"

record config =
  secret :: buffer
  maxTokenAge :: int
  iterations :: nat
  iv :: buffer

definition constructor :: "string \<Rightarrow> jsval \<Rightarrow> error + config" where
  "constructor s mta =
     (if s = [] then Inl (Error ''You must provide a secret!'')
      else Inr \<lparr> secret = Buffer_from s,
                 maxTokenAge = or_default mta 900000,
                 iterations = 1000,
                 iv = fill (alloc 8) 0 \<rparr>)"

definition priv_createKey :: "modules \<Rightarrow> config \<Rightarrow> string \<Rightarrow> error + buffer" where
  "priv_createKey lib this username =
     (let usernameBuffer = Buffer_from username in
      if pbkdf2_length lib = 5
      then pbkdf2 lib usernameBuffer (secret this) (iterations this) 16 None
      else pbkdf2 lib usernameBuffer (secret this) (iterations this) 16 (Some ''sha512''))"

text \<open>The step \<^verbatim>\<open>timestamp -> buffer\<close> of \<^verbatim>\<open>_encrypt\<close>.\<close>

definition timestamp_to_buffer :: "int \<Rightarrow> error + buffer" where
  "timestamp_to_buffer timestamp =
     waterfall (writeUInt32BE (alloc 8) (real_of_int timestamp / real_of_int UINT32_CAPACITY) 0)
       (\<lambda>buffer. writeUInt32BE buffer (real_of_int (js_rem timestamp UINT32_CAPACITY)) 4)"

text \<open>The step \<^verbatim>\<open>buffer -> timestamp\<close> of \<^verbatim>\<open>_decrypt\<close>.\<close>

definition buffer_to_timestamp :: "buffer \<Rightarrow> error + int" where
  "buffer_to_timestamp buffer =
     waterfall (readUInt32BE buffer 0) (\<lambda>hi.
     waterfall (readUInt32BE buffer 4) (\<lambda>lo.
       Inr (js_add (js_add 0 (js_mul hi UINT32_CAPACITY)) lo)))"

definition priv_encrypt :: "modules \<Rightarrow> config \<Rightarrow> int \<Rightarrow> string \<Rightarrow> error + string" where
  "priv_encrypt lib this timestamp username =
     waterfall (priv_createKey lib this username) (\<lambda>key.
     waterfall (timestamp_to_buffer timestamp) (\<lambda>buffer.
       let encrypted = cipher_update (bf_encrypt lib key (iv this)) buffer in
       waterfall (cipher_final buffer) (\<lambda>rest.
         if 0 \<noteq> length rest then Inl AssertionError
         else Inr (base62_encode_fn lib encrypted))))"

definition priv_decrypt :: "modules \<Rightarrow> config \<Rightarrow> string \<Rightarrow> string \<Rightarrow> error + int" where
  "priv_decrypt lib this token username =
     waterfall (priv_createKey lib this username) (\<lambda>key.
       case base62_decode_fn lib token of
         Inl err \<Rightarrow> Inr 0
       | Inr encrypted \<Rightarrow>
           let buffer = cipher_update (bf_decrypt lib key (iv this)) encrypted in
           waterfall (cipher_final encrypted) (\<lambda>rest.
             if 0 \<noteq> length rest then Inl AssertionError
             else buffer_to_timestamp buffer))"

text \<open>
  \<^verbatim>\<open>createToken\<close> and \<^verbatim>\<open>isValid\<close> read the clock; the reading is the argument \<open>now\<close>.
  Their string arguments are strings by their type, so of the argument checks of the
  source the one for an empty user name remains.
\<close>

definition createToken :: "modules \<Rightarrow> config \<Rightarrow> string \<Rightarrow> int \<Rightarrow> error + string" where
  "createToken lib this username now =
     (if username = [] then Inl (Error ''An identifier for the user is required.'')
      else
        let timestamp = now in
        priv_encrypt lib this timestamp username)"

definition isValid :: "modules \<Rightarrow> config \<Rightarrow> string \<Rightarrow> string \<Rightarrow> int \<Rightarrow> error + bool" where
  "isValid lib this token username now =
     (if username = [] then Inl (Error ''An identifier for the user is required.'')
      else
        waterfall (priv_decrypt lib this token username) (\<lambda>timestamp.
          let currentTimestamp = now;
              valid = (currentTimestamp - timestamp < maxTokenAge this
                       \<and> currentTimestamp - timestamp > 0)
          in Inr valid))"

section \<open>Assumptions on the required modules\<close>

text \<open>
  What the handler relies on: Blowfish-CBC without padding maps an 8-byte block to an
  8-byte block and decryption undoes encryption under the same key and vector; decoding
  undoes encoding on 8-byte buffers; key derivation succeeds with a key of the length
  asked for.
\<close>

definition cipher_inverse :: "modules \<Rightarrow> bool" where
  "cipher_inverse lib \<longleftrightarrow>
     (\<forall>key iv block. length block = 8 \<longrightarrow>
        length (bf_encrypt lib key iv block) = 8 \<and>
        length (bf_decrypt lib key iv block) = 8 \<and>
        bf_decrypt lib key iv (bf_encrypt lib key iv block) = block)"

definition base62_inverse :: "modules \<Rightarrow> bool" where
  "base62_inverse lib \<longleftrightarrow>
     (\<forall>b. length b = 8 \<longrightarrow> base62_decode_fn lib (base62_encode_fn lib b) = Inr b)"


text \<open>The four bytes of an unsigned 32-bit integer, most significant first.\<close>

definition be32 :: "int \<Rightarrow> buffer" where
  "be32 n = [word_of_int (n div 2 ^ 24), word_of_int (n div 2 ^ 16),
             word_of_int (n div 2 ^ 8), word_of_int n]"

text \<open>The buffer of a timestamp: its high word, then its low word.\<close>

definition tsbuf :: "int \<Rightarrow> buffer" where
  "tsbuf t = be32 (t div 2 ^ 32) @ be32 (t mod 2 ^ 32)"

text \<open>
  Stand-ins for the runtime's \<^verbatim>\<open>crypto\<close> module, used to run the handler on concrete
  inputs: a key derivation that cuts the key out of password and salt, and a cipher that
  rotates the block to the left by as many bytes as the first key byte says (modulo 8).
  With them go the codec above and a handler configured with the secret of the README and
  the default window.
\<close>

definition rotate_left :: "nat \<Rightarrow> buffer \<Rightarrow> buffer" where
  "rotate_left k data = drop k data @ take k data"

definition test_modules :: modules where
  "test_modules =
     \<lparr> base62_encode_fn = base62_encode,
       base62_decode_fn = base62_decode,
       pbkdf2_length = 6,
       pbkdf2 = (\<lambda>password salt iters keylen digest.
                   Inr (take keylen (password @ salt @ replicate keylen 0))),
       bf_encrypt = (\<lambda>key iv data. rotate_left (unat (hd key) mod 8) data),
       bf_decrypt = (\<lambda>key iv data. rotate_left (length data - unat (hd key) mod 8) data) \<rparr>"

definition test_config :: config where
  "test_config =
     \<lparr> secret = Buffer_from ''shh-this-is-our-secret'',
       maxTokenAge = 900000,
       iterations = 1000,
       iv = [0, 0, 0, 0, 0, 0, 0, 0] \<rparr>"

section \<open>The key derivation of the runtime\<close>

text \<open>
  \<^verbatim>\<open>crypto.pbkdf2\<close> with the digest \<^verbatim>\<open>sha512\<close> is PBKDF2 (RFC 8018) with HMAC (RFC 2104)
  over SHA-512 (FIPS 180-4) as its pseudorandom function: the password is the HMAC key.
\<close>

text \<open>
  The integer part of the \<open>k\<close>-th root of a natural number, found by bisection between
  a bound whose power is at most the number and one whose power exceeds it.
\<close>

function bisect_root :: "nat \<Rightarrow> nat \<Rightarrow> nat \<Rightarrow> nat \<Rightarrow> nat" where
  "bisect_root k n lo hi =
     (if hi \<le> Suc lo then lo
      else
        let mid = (lo + hi) div 2 in
        if mid ^ k \<le> n then bisect_root k n mid hi else bisect_root k n lo mid)"
  by pat_completeness auto
termination
  by (relation "measure (\<lambda>(k, n, lo, hi). hi - lo)") auto

definition iroot :: "nat \<Rightarrow> nat \<Rightarrow> nat" where
  "iroot k n = bisect_root k n 0 (Suc n)"

text \<open>The first eighty prime numbers.\<close>

definition sha512_primes :: "nat list" where
  "sha512_primes =
     [2, 3, 5, 7, 11, 13, 17, 19, 23, 29, 31, 37, 41, 43, 47, 53,
      59, 61, 67, 71, 73, 79, 83, 89, 97, 101, 103, 107, 109, 113, 127, 131,
      137, 139, 149, 151, 157, 163, 167, 173, 179, 181, 191, 193, 197, 199, 211, 223,
      227, 229, 233, 239, 241, 251, 257, 263, 269, 271, 277, 281, 283, 293, 307, 311,
      313, 317, 331, 337, 347, 349, 353, 359, 367, 373, 379, 383, 389, 397, 401, 409]"

text \<open>
  The round constants of SHA-512: the first 64 bits of the fractional parts of the cube
  roots of the first eighty primes.
\<close>

definition sha512_K :: "64 word list" where
  "sha512_K = map (\<lambda>p. word_of_nat (iroot 3 (p * 2 ^ 192))) sha512_primes"

text \<open>
  The initial hash value of SHA-512: the first 64 bits of the fractional parts of the
  square roots of the first eight primes.
\<close>

definition sha512_H0 :: "64 word list" where
  "sha512_H0 = map (\<lambda>p. word_of_nat (iroot 2 (p * 2 ^ 128))) (take 8 sha512_primes)"

text \<open>The bitwise functions of SHA-512 on 64-bit words.\<close>

definition Ch :: "64 word \<Rightarrow> 64 word \<Rightarrow> 64 word \<Rightarrow> 64 word" where
  "Ch x y z = (x AND y) XOR (NOT x AND z)"

definition Maj :: "64 word \<Rightarrow> 64 word \<Rightarrow> 64 word \<Rightarrow> 64 word" where
  "Maj x y z = (x AND y) XOR (x AND z) XOR (y AND z)"

definition Sigma0 :: "64 word \<Rightarrow> 64 word" where
  "Sigma0 x = word_rotr 28 x XOR word_rotr 34 x XOR word_rotr 39 x"

definition Sigma1 :: "64 word \<Rightarrow> 64 word" where
  "Sigma1 x = word_rotr 14 x XOR word_rotr 18 x XOR word_rotr 41 x"

definition sigma0 :: "64 word \<Rightarrow> 64 word" where
  "sigma0 x = word_rotr 1 x XOR word_rotr 8 x XOR drop_bit 7 x"

definition sigma1 :: "64 word \<Rightarrow> 64 word" where
  "sigma1 x = word_rotr 19 x XOR word_rotr 61 x XOR drop_bit 6 x"

text \<open>The padded message: a one bit, zero bits up to 112 modulo 128 bytes, and the
  length of the message in bits as a 128-bit number.\<close>

definition sha512_pad :: "buffer \<Rightarrow> buffer" where
  "sha512_pad msg =
     msg @ [0x80] @ replicate ((128 - (length msg + 17) mod 128) mod 128) 0
       @ padStart 16 (toBytes (8 * length msg))"

text \<open>Eight bytes as a 64-bit word and back, most significant byte first.\<close>

definition word64_of_bytes :: "buffer \<Rightarrow> 64 word" where
  "word64_of_bytes bytes = foldl (\<lambda>acc b. push_bit 8 acc OR ucast b) 0 bytes"

definition bytes_of_word64 :: "64 word \<Rightarrow> buffer" where
  "bytes_of_word64 w = map (\<lambda>i. ucast (drop_bit (8 * (7 - i)) w)) [0..<8]"

text \<open>The first \<open>n\<close> pieces of \<open>k\<close> elements of a list.\<close>

fun chunks :: "nat \<Rightarrow> nat \<Rightarrow> 'a list \<Rightarrow> 'a list list" where
  "chunks 0 k xs = []"
| "chunks (Suc n) k xs = take k xs # chunks n k (drop k xs)"

text \<open>The message schedule: the 16 words of a block extended to 80.\<close>

fun sha512_schedule :: "nat \<Rightarrow> 64 word list \<Rightarrow> 64 word list" where
  "sha512_schedule 0 w = w"
| "sha512_schedule (Suc n) w =
     sha512_schedule n
       (w @ [sigma1 (w ! (length w - 2)) + w ! (length w - 7)
             + sigma0 (w ! (length w - 15)) + w ! (length w - 16)])"

text \<open>One round on the eight working variables, and the compression of a block.\<close>

fun sha512_round :: "64 word list \<Rightarrow> 64 word \<times> 64 word \<Rightarrow> 64 word list" where
  "sha512_round [a, b, c, d, e, f, g, h] (k, w) =
     (let t1 = h + Sigma1 e + Ch e f g + k + w;
          t2 = Sigma0 a + Maj a b c
      in [t1 + t2, a, b, c, d + t1, e, f, g])"
| "sha512_round s (k, w) = s"

definition sha512_compress :: "64 word list \<Rightarrow> buffer \<Rightarrow> 64 word list" where
  "sha512_compress hs block =
     (let w = sha512_schedule 64 (map word64_of_bytes (chunks 16 8 block))
      in map2 (+) hs (foldl sha512_round hs (zip sha512_K w)))"

text \<open>SHA-512 of a byte sequence: 64 bytes.\<close>

definition sha512 :: "buffer \<Rightarrow> buffer" where
  "sha512 msg =
     (let m = sha512_pad msg
      in concat (map bytes_of_word64
           (foldl sha512_compress sha512_H0 (chunks (length m div 128) 128 m))))"

text \<open>HMAC over SHA-512: a key longer than the 128-byte block is hashed first, and the
  key is padded with zero bytes to the block.\<close>

definition hmac_sha512 :: "buffer \<Rightarrow> buffer \<Rightarrow> buffer" where
  "hmac_sha512 key msg =
     (let k0 = (if 128 < length key then sha512 key else key);
          k = k0 @ replicate (128 - length k0) 0
      in sha512 (map (\<lambda>b. b XOR 0x5c) k @ sha512 (map (\<lambda>b. b XOR 0x36) k @ msg)))"

text \<open>PBKDF2: the exclusive or of the iterated values of one block of the derived key,
  and the derived key cut out of the blocks.\<close>

fun pbkdf2_iterate :: "(buffer \<Rightarrow> buffer) \<Rightarrow> nat \<Rightarrow> buffer \<Rightarrow> buffer \<Rightarrow> buffer" where
  "pbkdf2_iterate prf 0 u t = t"
| "pbkdf2_iterate prf (Suc n) u t =
     (let u' = prf u in pbkdf2_iterate prf n u' (map2 (XOR) t u'))"

definition pbkdf2_block :: "(buffer \<Rightarrow> buffer) \<Rightarrow> buffer \<Rightarrow> nat \<Rightarrow> nat \<Rightarrow> buffer" where
  "pbkdf2_block prf salt c i =
     (let u1 = prf (salt @ be32 (int i)) in pbkdf2_iterate prf (c - 1) u1 u1)"

definition pbkdf2_hmac_sha512 :: "buffer \<Rightarrow> buffer \<Rightarrow> nat \<Rightarrow> nat \<Rightarrow> buffer" where
  "pbkdf2_hmac_sha512 password salt c dkLen =
     take dkLen (concat (map (pbkdf2_block (hmac_sha512 password) salt c)
       [1..<Suc ((dkLen + 63) div 64)]))"

text \<open>\<^verbatim>\<open>crypto.pbkdf2\<close> for the digest the handler names; other digests are not modelled.\<close>

definition crypto_pbkdf2 :: "buffer \<Rightarrow> buffer \<Rightarrow> nat \<Rightarrow> nat \<Rightarrow> string option \<Rightarrow> error + buffer" where
  "crypto_pbkdf2 password salt iters keylen digest =
     (if digest = Some ''sha512'' then Inr (pbkdf2_hmac_sha512 password salt iters keylen)
      else Inl (Error ''Invalid digest''))"

text \<open>The modules with this key derivation in place of the stand-in one.\<close>

definition pbkdf2_modules :: modules where
  "pbkdf2_modules = test_modules\<lparr>pbkdf2 := crypto_pbkdf2\<rparr>"

declare digits62.simps [simp del]
declare toBytes.simps [simp del]
declare bit_length.simps [simp del]
declare bisect_root.simps [simp del]

section \<open>The codec inverts itself on cipher blocks\<close>

lemma distinct_CHARSET: "distinct CHARSET"
  by (simp add: CHARSET_def)

lemma length_CHARSET: "length CHARSET = 62"
  by (simp add: CHARSET_def)

lemma indexOf_nth: "distinct xs \<Longrightarrow> d < length xs \<Longrightarrow> indexOf xs (xs ! d) = Some d"
proof (induction xs arbitrary: d)
  case Nil
  then show ?case by simp
next
  case (Cons x xs)
  show ?case
  proof (cases d)
    case 0
    then show ?thesis by simp
  next
    case (Suc k)
    with Cons.prems have "xs ! k \<in> set xs" "x \<notin> set xs" by auto
    then have "x \<noteq> xs ! k" by auto
    with Suc Cons show ?thesis by simp
  qed
qed

lemma indexOf_Some: "indexOf xs c = Some d \<Longrightarrow> d < length xs \<and> xs ! d = c"
  by (induction xs arbitrary: d) (auto split: if_splits)

lemma indexOf_None: "indexOf xs c = None \<longleftrightarrow> c \<notin> set xs"
  by (induction xs) auto

lemma digits62_bound: "d \<in> set (digits62 n) \<Longrightarrow> d < 62"
proof (induction n rule: digits62.induct)
  case (1 n)
  then show ?case
    by (subst (asm) (2) digits62.simps) (auto split: if_splits)
qed

lemma digits62_value: "foldr (\<lambda>d acc. acc * 62 + d) (digits62 n) 0 = n"
proof (induction n rule: digits62.induct)
  case (1 n)
  show ?case
  proof (cases "n < 62")
    case True
    then show ?thesis by (subst digits62.simps) simp
  next
    case False
    with 1 have "foldr (\<lambda>d acc. acc * 62 + d) (digits62 (n div 62)) 0 = n div 62" by simp
    with False show ?thesis by (subst digits62.simps) simp
  qed
qed

lemma fromDigits_map:
  "\<forall>d \<in> set ds. d < 62 \<Longrightarrow>
   fromDigits acc (map (\<lambda>d. CHARSET ! d) ds) = Inr (foldl (\<lambda>acc d. acc * 62 + d) acc ds)"
proof (induction ds arbitrary: acc)
  case Nil
  then show ?case by simp
next
  case (Cons d ds)
  then have "indexOf CHARSET (CHARSET ! d) = Some d"
    by (simp add: indexOf_nth distinct_CHARSET length_CHARSET)
  with Cons show ?case by simp
qed

lemma fromDigits_encode: "fromDigits 0 (base62_encode bytes) = Inr (toBigInt bytes)"
proof -
  have "fromDigits 0 (base62_encode bytes)
        = Inr (foldl (\<lambda>acc d. acc * 62 + d) 0 (rev (digits62 (toBigInt bytes))))"
    unfolding base62_encode_def
    by (rule fromDigits_map) (simp add: digits62_bound)
  also have "foldl (\<lambda>acc d. acc * 62 + d) 0 (rev (digits62 (toBigInt bytes)))
             = foldr (\<lambda>d acc. acc * 62 + d) (digits62 (toBigInt bytes)) 0"
    by (simp add: foldl_conv_foldr)
  finally show ?thesis by (simp add: digits62_value)
qed

lemma toBigInt_snoc: "toBigInt (bs @ [b]) = toBigInt bs * 256 + unat b"
  by (simp add: toBigInt_def)

lemma toBigInt_Nil: "toBigInt [] = 0"
  by (simp add: toBigInt_def)

lemma toBigInt_zero: "toBigInt bs = 0 \<longleftrightarrow> (\<forall>b \<in> set bs. b = 0)"
  by (induction bs rule: rev_induct) (auto simp: toBigInt_snoc toBigInt_Nil unat_eq_0)

lemma unat_byte_less: "unat (b :: byte) < 256"
  using unsigned_less [of b, where ?'a = nat] by simp

lemma toBytes_toBigInt: "toBytes (toBigInt bs) = dropWhile (\<lambda>b. b = 0) bs"
proof (induction bs rule: rev_induct)
  case Nil
  then show ?case by (subst toBytes.simps) (simp add: toBigInt_Nil)
next
  case (snoc b bs)
  show ?case
  proof (cases "toBigInt (bs @ [b]) = 0")
    case True
    then have "\<forall>x \<in> set (bs @ [b]). x = 0" by (simp only: toBigInt_zero)
    then have "dropWhile (\<lambda>b. b = 0) (bs @ [b]) = []" by simp
    with True show ?thesis by (subst toBytes.simps) simp
  next
    case False
    have d: "(toBigInt bs * 256 + unat b) div 256 = toBigInt bs"
      using unat_byte_less [of b] by simp
    have m: "(toBigInt bs * 256 + unat b) mod 256 = unat b"
      using unat_byte_less [of b] by simp
    have "toBytes (toBigInt (bs @ [b])) = toBytes (toBigInt bs) @ [b]"
      using False by (subst toBytes.simps) (simp add: toBigInt_snoc d m del: mod_mult_self3 )
    also have "\<dots> = dropWhile (\<lambda>b. b = 0) bs @ [b]" by (simp add: snoc.IH)
    also have "\<dots> = dropWhile (\<lambda>b. b = 0) (bs @ [b])"
    proof (cases "\<forall>x \<in> set bs. x = 0")
      case True
      with False have "b \<noteq> 0" by (auto simp: toBigInt_zero)
      with True show ?thesis by simp
    next
      case False
      then show ?thesis by (auto simp: dropWhile_append1)
    qed
    finally show ?thesis .
  qed
qed

lemma padStart_dropWhile: "padStart (length bs) (dropWhile (\<lambda>b. b = 0) bs) = bs"
proof -
  have "replicate (length (takeWhile (\<lambda>b. b = 0) bs)) 0 = takeWhile (\<lambda>b. b = (0::byte)) bs"
    by (induction bs) auto
  moreover have "length bs - length (dropWhile (\<lambda>b. b = 0) bs) = length (takeWhile (\<lambda>b. b = 0) bs)"
  proof -
    have "length (takeWhile (\<lambda>b. b = 0) bs @ dropWhile (\<lambda>b. b = 0) bs) = length bs"
      by (simp only: takeWhile_dropWhile_id)
    then have "length (takeWhile (\<lambda>b. b = 0) bs) + length (dropWhile (\<lambda>b. b = 0) bs) = length bs"
      by (simp only: length_append)
    then show ?thesis by linarith
  qed
  ultimately show ?thesis by (simp add: padStart_def)
qed

lemma base62_roundtrip: "length b = 8 \<Longrightarrow> base62_decode (base62_encode b) = Inr b"
  using padStart_dropWhile [of b]
  by (simp add: base62_decode_def fromDigits_encode toBytes_toBigInt)

section \<open>Numbers\<close>

lemma bit_length_le: "n < 2 ^ k \<Longrightarrow> bit_length n \<le> k"
proof (induction k arbitrary: n)
  case 0
  then show ?case by (subst bit_length.simps) simp
next
  case (Suc k)
  show ?case
  proof (cases "n = 0")
    case True
    then show ?thesis by (subst bit_length.simps) simp
  next
    case False
    from Suc.prems have "n div 2 < 2 ^ k" by simp
    then have "bit_length (n div 2) \<le> k" by (rule Suc.IH)
    with False show ?thesis by (subst bit_length.simps) simp
  qed
qed

lemma to_double_exact:
  assumes "0 \<le> n" "n < 2 ^ (53 + k)" "2 ^ k dvd n"
  shows "to_double n = n"
proof -
  define m where "m = nat \<bar>n\<bar>"
  define e where "e = bit_length m - 53"
  have m: "int m = n" using assms(1) by (simp add: m_def)
  have "m < 2 ^ (53 + k)"
  proof -
    have "int m < int (2 ^ (53 + k))" using assms(2) m by simp
    then show ?thesis by (simp only: of_nat_less_iff)
  qed
  then have "bit_length m \<le> 53 + k" by (rule bit_length_le)
  then have ek: "e \<le> k" by (simp add: e_def)
  have "(2::nat) ^ k dvd m"
  proof -
    have "int (2 ^ k) dvd int m" using assms(3) m by simp
    then show ?thesis by (simp only: of_nat_dvd_iff)
  qed
  moreover have "(2::nat) ^ e dvd 2 ^ k" using ek by (rule le_imp_power_dvd)
  ultimately have d: "2 ^ e dvd m" by (rule dvd_trans [rotated])
  then have r: "m mod 2 ^ e = 0" by simp
  from d have q: "m div 2 ^ e * 2 ^ e = m" by simp
  have "to_double n = sgn n * int (m div 2 ^ e * 2 ^ e)"
    by (simp add: to_double_def Let_def m_def [symmetric] e_def [symmetric] r)
  also have "\<dots> = sgn n * n" by (simp only: q m)
  also have "\<dots> = n" using assms(1) by (cases "n = 0") simp_all
  finally show ?thesis .
qed

lemma to_double_safe:
  assumes "0 \<le> n" "n \<le> 9007199254740991"
  shows "to_double n = n"
  using to_double_exact [of n 0] assms by simp

lemma bit_length_example: "bit_length 9007199254740993 = 54"
  by (simp add: bit_length.simps)

lemma to_double_example: "to_double 9007199254740993 = 9007199254740992"
proof -
  have "nat \<bar>9007199254740993::int\<bar> = 9007199254740993" by simp
  then show ?thesis
    unfolding to_double_def Let_def by (simp only: bit_length_example) simp
qed

lemma js_rebuild:
  assumes "0 \<le> t" "t \<le> 0xffffffff * 2 ^ 32" "to_double t = t"
  shows "js_add (js_add 0 (js_mul (t div 2 ^ 32) (0xffffffff + 1))) (t mod 2 ^ 32) = t"
proof -
  let ?hi = "t div 2 ^ 32"
  have hi: "0 \<le> ?hi" "?hi < 2 ^ 32"
  proof -
    show "0 \<le> ?hi" using assms(1) by (simp add: div_int_pos_iff)
    have "?hi \<le> (0xffffffff * 2 ^ 32) div 2 ^ 32"
      using assms(2) by (intro zdiv_mono1) simp_all
    then show "?hi < 2 ^ 32" by simp
  qed
  have p: "to_double (?hi * 2 ^ 32) = ?hi * 2 ^ 32"
  proof (rule to_double_exact [where k = 32])
    show "0 \<le> ?hi * 2 ^ 32" using hi(1) by simp
    have "?hi * 2 ^ 32 < 2 ^ 32 * 2 ^ 32" using hi(2) by simp
    also have "\<dots> \<le> (2::int) ^ (53 + 32)" by simp
    finally show "?hi * 2 ^ 32 < 2 ^ (53 + 32)" .
    show "2 ^ 32 dvd ?hi * 2 ^ 32" by simp
  qed
  have "js_mul ?hi (0xffffffff + 1) = ?hi * 2 ^ 32"
    using p by (simp add: js_mul_def)
  moreover have "js_add 0 (?hi * 2 ^ 32) = ?hi * 2 ^ 32"
    using p by (simp add: js_add_def)
  moreover have "js_add (?hi * 2 ^ 32) (t mod 2 ^ 32) = t"
  proof -
    have "?hi * 2 ^ 32 + t mod 2 ^ 32 = t" by simp
    with assms(3) show ?thesis by (simp only: js_add_def)
  qed
  ultimately show ?thesis by (simp only:)
qed

section \<open>Timestamps and buffers\<close>

lemma alloc_8: "alloc 8 = [0, 0, 0, 0, 0, 0, 0, 0]"
  by (simp add: alloc_def numeral_eq_Suc)

lemma list_update_numeral: "(x # xs)[numeral k := y] = x # xs[pred_numeral k := y]"
  by (simp add: numeral_eq_Suc)

lemma be32_int:
  fixes n :: int
  assumes "0 \<le> n" "n < 2 ^ 32"
  shows "(n div 2 ^ 24 mod 256) * 2 ^ 24 + (n div 2 ^ 16 mod 256) * 2 ^ 16
         + (n div 2 ^ 8 mod 256) * 2 ^ 8 + n mod 256 = n"
proof -
  define a where "a = n div 256"
  define b where "b = a div 256"
  define c where "c = b div 256"
  have n: "n = a * 256 + n mod 256" by (simp add: a_def)
  have a: "a = b * 256 + a mod 256" by (simp add: b_def)
  have b: "b = c * 256 + b mod 256" by (simp add: c_def)
  have a16: "n div 2 ^ 16 = b"
    using zdiv_zmult2_eq [of 256 n 256] by (simp add: a_def b_def)
  have a24: "n div 2 ^ 24 = c"
    using zdiv_zmult2_eq [of 65536 n 256] a16 by (simp add: c_def)
  have "c < 256" "0 \<le> c" using assms by (simp_all add: a24 [symmetric])
  then have cm: "c mod 256 = c" by simp
  have a8: "n div 2 ^ 8 = a" by (simp add: a_def)
  show ?thesis
    unfolding a8 a16 a24 cm using n a b by simp
qed

lemma uint_byte_of_int: "uint (word_of_int k :: byte) = k mod 256"
  by (simp add: uint_word_of_int_eq take_bit_eq_mod)

lemma writeUInt32BE_0:
  assumes "0 \<le> v" "v \<le> 4294967295"
  shows "writeUInt32BE [a, b, c, d, e, f, g, h] v 0 = Inr (be32 \<lfloor>v\<rfloor> @ [e, f, g, h])"
  using assms by (simp add: writeUInt32BE_def be32_def Let_def list_update_numeral)

lemma writeUInt32BE_4:
  assumes "0 \<le> v" "v \<le> 4294967295"
  shows "writeUInt32BE [a, b, c, d, e, f, g, h] v 4 = Inr ([a, b, c, d] @ be32 \<lfloor>v\<rfloor>)"
  using assms by (simp add: writeUInt32BE_def be32_def Let_def list_update_numeral)

lemma readUInt32BE_be32:
  "readUInt32BE (be32 n @ [e, f, g, h]) 0 =
   Inr ((n div 2 ^ 24 mod 256) * 2 ^ 24 + (n div 2 ^ 16 mod 256) * 2 ^ 16
         + (n div 2 ^ 8 mod 256) * 2 ^ 8 + n mod 256)"
  by (simp add: readUInt32BE_def be32_def uint_byte_of_int)

lemma readUInt32BE_0:
  assumes "0 \<le> n" "n < 2 ^ 32"
  shows "readUInt32BE (be32 n @ [e, f, g, h]) 0 = Inr n"
  unfolding readUInt32BE_be32 using be32_int [OF assms] by (simp only:)

lemma readUInt32BE_be32_4:
  "readUInt32BE ([a, b, c, d] @ be32 n) 4 =
   Inr ((n div 2 ^ 24 mod 256) * 2 ^ 24 + (n div 2 ^ 16 mod 256) * 2 ^ 16
         + (n div 2 ^ 8 mod 256) * 2 ^ 8 + n mod 256)"
  by (simp add: readUInt32BE_def be32_def uint_byte_of_int)

lemma readUInt32BE_4:
  assumes "0 \<le> n" "n < 2 ^ 32"
  shows "readUInt32BE ([a, b, c, d] @ be32 n) 4 = Inr n"
  unfolding readUInt32BE_be32_4 using be32_int [OF assms] by (simp only:)

lemma floor_quotient: "\<lfloor>real_of_int t / real_of_int UINT32_CAPACITY\<rfloor> = t div 2 ^ 32"
  using floor_divide_of_int_eq [of t 4294967296, where ?'a = real]
  by (simp add: UINT32_CAPACITY_def)

lemma quotient_in_range:
  "real_of_int t / real_of_int UINT32_CAPACITY > 0xffffffff \<longleftrightarrow> t > 0xffffffff * 2 ^ 32"
  "real_of_int t / real_of_int UINT32_CAPACITY < 0 \<longleftrightarrow> t < 0"
  by (simp_all add: UINT32_CAPACITY_def field_simps)

lemma js_rem_nonneg: "0 \<le> t \<Longrightarrow> js_rem t UINT32_CAPACITY = t mod 2 ^ 32"
  by (cases "t = 0") (simp_all add: js_rem_def UINT32_CAPACITY_def)

lemma timestamp_to_buffer_eq:
  assumes "0 \<le> t" "t \<le> 0xffffffff * 2 ^ 32"
  shows "timestamp_to_buffer t = Inr (be32 (t div 2 ^ 32) @ be32 (t mod 2 ^ 32))"
proof -
  have 1: "0 \<le> real_of_int t / real_of_int UINT32_CAPACITY"
          "real_of_int t / real_of_int UINT32_CAPACITY \<le> 4294967295"
    using assms quotient_in_range [of t] by (simp_all add: not_less [symmetric])
  have 2: "0 \<le> real_of_int (t mod 2 ^ 32)" "real_of_int (t mod 2 ^ 32) \<le> 4294967295"
  proof -
    have "t mod 2 ^ 32 < 2 ^ 32" by simp
    then have "t mod 2 ^ 32 \<le> 4294967295" by simp
    then show "real_of_int (t mod 2 ^ 32) \<le> 4294967295"
      using of_int_le_iff [of "t mod 2 ^ 32" 4294967295, where ?'a = real] by simp
    show "0 \<le> real_of_int (t mod 2 ^ 32)" by simp
  qed
  have "be32 (t div 2 ^ 32) @ [0, 0, 0, 0] = [word_of_int ((t div 2 ^ 32) div 2 ^ 24), word_of_int ((t div 2 ^ 32) div 2 ^ 16),
           word_of_int ((t div 2 ^ 32) div 2 ^ 8), word_of_int (t div 2 ^ 32), 0, 0, 0, 0]"
    by (simp add: be32_def)
  then show ?thesis
    unfolding timestamp_to_buffer_def alloc_8
    using writeUInt32BE_0 [OF 1] writeUInt32BE_4 [OF 2] assms(1)
    by (simp add: waterfall_def floor_quotient js_rem_nonneg be32_def)
qed

lemma timestamp_to_buffer_range:
  assumes "timestamp_to_buffer t = Inr buf"
  shows "0 \<le> t \<and> t \<le> 0xffffffff * 2 ^ 32"
proof -
  have "\<not> (real_of_int t / real_of_int UINT32_CAPACITY > 0xffffffff
            \<or> real_of_int t / real_of_int UINT32_CAPACITY < 0)"
    using assms
    by (auto simp: timestamp_to_buffer_def waterfall_def writeUInt32BE_def split: if_splits)
  then show ?thesis
    using quotient_in_range [of t] by linarith
qed

lemma timestamp_to_buffer_rejects:
  assumes "t < 0 \<or> 0xffffffff * 2 ^ 32 < t"
  shows "timestamp_to_buffer t = Inl ERR_OUT_OF_RANGE"
proof -
  have "real_of_int t / real_of_int UINT32_CAPACITY > 0xffffffff
        \<or> real_of_int t / real_of_int UINT32_CAPACITY < 0"
    using assms quotient_in_range [of t] by blast
  then show ?thesis
    by (auto simp: timestamp_to_buffer_def writeUInt32BE_def waterfall_def)
qed

lemma buffer_to_timestamp_words:
  assumes "0 \<le> t" "t \<le> 0xffffffff * 2 ^ 32"
  shows "readUInt32BE (be32 (t div 2 ^ 32) @ be32 (t mod 2 ^ 32)) 0 = Inr (t div 2 ^ 32)"
    and "readUInt32BE (be32 (t div 2 ^ 32) @ be32 (t mod 2 ^ 32)) 4 = Inr (t mod 2 ^ 32)"
proof -
  have hi: "0 \<le> t div 2 ^ 32" "t div 2 ^ 32 < 2 ^ 32"
  proof -
    show "0 \<le> t div 2 ^ 32" using assms(1) by (simp add: div_int_pos_iff)
    have "t div 2 ^ 32 \<le> (0xffffffff * 2 ^ 32) div 2 ^ 32"
      using assms(2) by (intro zdiv_mono1) simp_all
    then show "t div 2 ^ 32 < 2 ^ 32" by simp
  qed
  have lo: "0 \<le> t mod 2 ^ 32" "t mod 2 ^ 32 < 2 ^ 32" by simp_all
  show "readUInt32BE (be32 (t div 2 ^ 32) @ be32 (t mod 2 ^ 32)) 0 = Inr (t div 2 ^ 32)"
    using readUInt32BE_0 [OF hi] by (simp add: be32_def)
  show "readUInt32BE (be32 (t div 2 ^ 32) @ be32 (t mod 2 ^ 32)) 4 = Inr (t mod 2 ^ 32)"
    using readUInt32BE_4 [OF lo] by (simp add: be32_def)
qed

lemma buffer_to_timestamp_eq:
  assumes "0 \<le> t" "t \<le> 0xffffffff * 2 ^ 32" "to_double t = t"
  shows "buffer_to_timestamp (be32 (t div 2 ^ 32) @ be32 (t mod 2 ^ 32)) = Inr t"
  unfolding buffer_to_timestamp_def buffer_to_timestamp_words [OF assms(1,2)] UINT32_CAPACITY_def
  using js_rebuild [OF assms] by (simp add: waterfall_def)

lemma length_be32: "length (be32 n) = 4"
  by (simp add: be32_def)

section \<open>Tokens\<close>

lemma length_tsbuf: "length (tsbuf t) = 8"
  by (simp add: tsbuf_def length_be32)

lemma cipher_update_block: "length data = 8 \<Longrightarrow> cipher_update f data = f data"
  by (simp add: cipher_update_def)

lemma cipher_final_block: "length data = 8 \<Longrightarrow> cipher_final data = Inr []"
  by (simp add: cipher_final_def)

lemma waterfall_Inr: "waterfall r g = Inr y \<longleftrightarrow> (\<exists>x. r = Inr x \<and> g x = Inr y)"
  by (cases r) (simp_all add: waterfall_def)

lemma waterfall_simps: "waterfall (Inr x) g = g x" "waterfall (Inl e) g = Inl e"
  by (simp_all add: waterfall_def)

lemma priv_encrypt_Inr:
  assumes "priv_encrypt lib this t username = Inr token"
  shows "\<exists>key. priv_createKey lib this username = Inr key \<and> 0 \<le> t \<and> t \<le> 0xffffffff * 2 ^ 32
           \<and> token = base62_encode_fn lib (bf_encrypt lib key (iv this) (tsbuf t))"
proof -
  from assms obtain key buf where key: "priv_createKey lib this username = Inr key"
    and buf: "timestamp_to_buffer t = Inr buf"
    and rest: "(let encrypted = cipher_update (bf_encrypt lib key (iv this)) buf in
       waterfall (cipher_final buf) (\<lambda>rest.
         if 0 \<noteq> length rest then Inl AssertionError
         else Inr (base62_encode_fn lib encrypted))) = Inr token"
    unfolding priv_encrypt_def waterfall_Inr by blast
  from buf have range: "0 \<le> t" "t \<le> 0xffffffff * 2 ^ 32"
    using timestamp_to_buffer_range by blast+
  with buf have b: "buf = tsbuf t"
    by (simp add: timestamp_to_buffer_eq tsbuf_def)
  from rest have "token = base62_encode_fn lib (bf_encrypt lib key (iv this) (tsbuf t))"
    unfolding b by (simp add: cipher_update_block cipher_final_block length_tsbuf waterfall_simps)
  with key range show ?thesis by blast
qed

lemma priv_encrypt_eq:
  assumes "priv_createKey lib this username = Inr key" "0 \<le> t" "t \<le> 0xffffffff * 2 ^ 32"
  shows "priv_encrypt lib this t username
         = Inr (base62_encode_fn lib (bf_encrypt lib key (iv this) (tsbuf t)))"
proof -
  have ttb: "timestamp_to_buffer t = Inr (tsbuf t)"
    unfolding tsbuf_def by (rule timestamp_to_buffer_eq [OF assms(2,3)])
  show ?thesis
    unfolding priv_encrypt_def assms(1) ttb waterfall_simps Let_def
      cipher_update_block [OF length_tsbuf] cipher_final_block [OF length_tsbuf]
    by simp
qed

lemma priv_decrypt_block:
  assumes "priv_createKey lib this username = Inr key"
    and "base62_decode_fn lib token = Inr encrypted" "length encrypted = 8"
  shows "priv_decrypt lib this token username
         = buffer_to_timestamp (bf_decrypt lib key (iv this) encrypted)"
  using assms
  by (simp add: priv_decrypt_def waterfall_simps cipher_update_block cipher_final_block)

lemma priv_decrypt_undecodable:
  assumes "priv_createKey lib this username = Inr key"
    and "base62_decode_fn lib token = Inl err"
  shows "priv_decrypt lib this token username = Inr 0"
  using assms by (simp add: priv_decrypt_def waterfall_simps)

lemma buffer_to_timestamp_tsbuf:
  "0 \<le> t \<Longrightarrow> t \<le> 0xffffffff * 2 ^ 32 \<Longrightarrow> to_double t = t
   \<Longrightarrow> buffer_to_timestamp (tsbuf t) = Inr t"
  unfolding tsbuf_def by (rule buffer_to_timestamp_eq)

lemma priv_decrypt_encrypt:
  assumes "cipher_inverse lib" "base62_inverse lib"
    and "priv_encrypt lib this t username = Inr token" "to_double t = t"
  shows "priv_decrypt lib this token username = Inr t"
proof -
  from priv_encrypt_Inr [OF assms(3)] obtain key where
    key: "priv_createKey lib this username = Inr key"
    and range: "0 \<le> t" "t \<le> 0xffffffff * 2 ^ 32"
    and token: "token = base62_encode_fn lib (bf_encrypt lib key (iv this) (tsbuf t))"
    by blast
  let ?c = "bf_encrypt lib key (iv this) (tsbuf t)"
  from assms(1) have len: "length ?c = 8" and inv: "bf_decrypt lib key (iv this) ?c = tsbuf t"
    by (simp_all add: cipher_inverse_def length_tsbuf)
  from assms(2) len have dec: "base62_decode_fn lib token = Inr ?c"
    by (simp add: base62_inverse_def token)
  show ?thesis
    unfolding priv_decrypt_block [OF key dec len] inv
    by (rule buffer_to_timestamp_tsbuf [OF range assms(4)])
qed

lemma createToken_eq:
  assumes "username \<noteq> []" "priv_createKey lib this username = Inr key"
    and "0 \<le> now" "now \<le> 0xffffffff * 2 ^ 32"
  shows "createToken lib this username now
         = Inr (base62_encode_fn lib (bf_encrypt lib key (iv this) (tsbuf now)))"
  using assms(1) priv_encrypt_eq [OF assms(2,3,4)] by (simp add: createToken_def)

section \<open>The stand-in modules meet the assumptions\<close>

lemma length_rotate_left: "length (rotate_left k data) = length data"
  by (simp add: rotate_left_def)

lemma rotate_left_inverse:
  "k \<le> length data \<Longrightarrow> rotate_left (length data - k) (rotate_left k data) = data"
  by (simp add: rotate_left_def)

lemma test_cipher_inverse: "cipher_inverse test_modules"
proof -
  have "rotate_left (length block - unat (hd key) mod 8) (rotate_left (unat (hd key) mod 8) block)
        = block"
    if "length block = 8" for block key
  proof -
    have "unat (hd key) mod 8 \<le> length block" unfolding that by simp
    then show ?thesis by (rule rotate_left_inverse)
  qed
  then show ?thesis
    by (auto simp: cipher_inverse_def test_modules_def length_rotate_left)
qed

lemma test_base62_inverse: "base62_inverse test_modules"
  by (simp add: base62_inverse_def test_modules_def base62_roundtrip)



lemma tsbuf_example: "tsbuf 1700000000000 = [0, 0, 1, 139, 207, 229, 104, 0]"
  by (simp add: tsbuf_def be32_def)

lemma test_createKey:
  "priv_createKey test_modules test_config ''alice''
   = Inr [97, 108, 105, 99, 101, 115, 104, 104, 45, 116, 104, 105, 115, 45, 105, 115]"
  by (simp add: priv_createKey_def test_modules_def test_config_def Buffer_from_def)

lemma test_createToken:
  "createToken test_modules test_config ''alice'' 1700000000000 = Inr ''1zZwHYmLg''"
proof -
  have "priv_encrypt test_modules test_config 1700000000000 ''alice''
        = Inr (base62_encode [0, 1, 139, 207, 229, 104, 0, 0])"
    using priv_encrypt_eq [OF test_createKey, of 1700000000000]
    by (simp add: tsbuf_example) (simp add: test_modules_def rotate_left_def)
  also have "base62_encode [0, 1, 139, 207, 229, 104, 0, 0] = ''1zZwHYmLg''"
    by (simp add: base62_encode_def toBigInt_def digits62.simps CHARSET_def)
  finally show ?thesis by (simp add: createToken_def)
qed

lemma test_priv_decrypt:
  "priv_decrypt test_modules test_config ''1zZwHYmLg'' ''alice'' = Inr 1700000000000"
proof -
  have "priv_encrypt test_modules test_config 1700000000000 ''alice'' = Inr ''1zZwHYmLg''"
    using test_createToken by (simp add: createToken_def)
  then show ?thesis
    by (rule priv_decrypt_encrypt [OF test_cipher_inverse test_base62_inverse])
      (simp add: to_double_safe)
qed

lemma decode_example: "base62_decode ''not-a-valid-base62-string!!'' = Inl FormatError"
  by (simp add: base62_decode_def CHARSET_def)

section \<open>Creating and validating tokens\<close>

text \<open>
  Claim C1 (round trip). A token that \<^verbatim>\<open>createToken\<close> produces for a user name at the
  clock reading \<open>now\<close> is accepted by \<^verbatim>\<open>isValid\<close> for the same user name and secret at
  every later reading \<open>now + \<epsilon>\<close> with \<open>0 < \<epsilon> < maxTokenAge\<close>, for readings that a
  JavaScript number holds exactly (at most 2^53 - 1). The cipher and the codec are
  assumed to invert themselves on 8-byte blocks. And a token is produced whenever the user
  name is not empty, the key derivation succeeds and \<open>now\<close> is not negative.
\<close>

theorem createToken_isValid_roundtrip:
  assumes "cipher_inverse lib" "base62_inverse lib"
    and "0 < \<epsilon>" "\<epsilon> < maxTokenAge this" "now + \<epsilon> \<le> 9007199254740991"
  shows "(createToken lib this username now = Inr token
            \<longrightarrow> isValid lib this token username (now + \<epsilon>) = Inr True)
         \<and> (username \<noteq> [] \<and> priv_createKey lib this username = Inr key \<and> 0 \<le> now
            \<longrightarrow> (\<exists>token'. createToken lib this username now = Inr token'))"
proof (intro conjI impI)
  assume c: "createToken lib this username now = Inr token"
  then have u: "username \<noteq> []" and enc: "priv_encrypt lib this now username = Inr token"
    by (auto simp: createToken_def split: if_splits)
  from priv_encrypt_Inr [OF enc] have "0 \<le> now" by blast
  with assms(3,5) have "to_double now = now" by (intro to_double_safe) simp_all
  then have "priv_decrypt lib this token username = Inr now"
    by (rule priv_decrypt_encrypt [OF assms(1,2) enc])
  with u assms(3,4) show "isValid lib this token username (now + \<epsilon>) = Inr True"
    by (simp add: isValid_def waterfall_simps)
next
  assume a: "username \<noteq> [] \<and> priv_createKey lib this username = Inr key \<and> 0 \<le> now"
  have "now \<le> 0xffffffff * 2 ^ 32" using assms(3,5) by simp
  with a show "\<exists>token'. createToken lib this username now = Inr token'"
    using createToken_eq [of username lib this key now] by blast
qed

theorem createToken_isValid_roundtrip_witness:
  "cipher_inverse test_modules \<and> base62_inverse test_modules
   \<and> (0::int) < 60000 \<and> 60000 < maxTokenAge test_config
   \<and> (1700000000000::int) + 60000 \<le> 9007199254740991
   \<and> createToken test_modules test_config ''alice'' 1700000000000 = Inr ''1zZwHYmLg''
   \<and> isValid test_modules test_config ''1zZwHYmLg'' ''alice'' (1700000000000 + 60000) = Inr True"
  using createToken_isValid_roundtrip [OF test_cipher_inverse test_base62_inverse, of 60000 test_config 1700000000000
      "''alice''" "''1zZwHYmLg''"]
    test_cipher_inverse test_base62_inverse test_createToken
  by (simp add: test_config_def)

text \<open>
  Claim C2 (window). \<^verbatim>\<open>isValid\<close> answers with the truth of
  \<open>0 < now - timestamp < maxTokenAge\<close> for the timestamp recovered from the token. Both
  bounds are strict: a timestamp equal to or later than the clock reading is invalid, and
  so is a token exactly \<open>maxTokenAge\<close> old.
\<close>

theorem isValid_window:
  assumes "username \<noteq> []" "priv_decrypt lib this token username = Inr timestamp"
  shows "isValid lib this token username now
           = Inr (0 < now - timestamp \<and> now - timestamp < maxTokenAge this)
         \<and> (now \<le> timestamp \<longrightarrow> isValid lib this token username now = Inr False)
         \<and> (now - timestamp = maxTokenAge this
              \<longrightarrow> isValid lib this token username now = Inr False)"
  using assms by (auto simp: isValid_def waterfall_simps)

theorem isValid_window_witness:
  "''alice'' \<noteq> []
   \<and> priv_decrypt test_modules test_config ''1zZwHYmLg'' ''alice'' = Inr 1700000000000
   \<and> isValid test_modules test_config ''1zZwHYmLg'' ''alice'' 1700000899999 = Inr True
   \<and> isValid test_modules test_config ''1zZwHYmLg'' ''alice'' 1700000900000 = Inr False
   \<and> isValid test_modules test_config ''1zZwHYmLg'' ''alice'' 1700000000000 = Inr False"
  using isValid_window [OF _ test_priv_decrypt, of 1700000899999]
    isValid_window [OF _ test_priv_decrypt, of 1700000900000]
    isValid_window [OF _ test_priv_decrypt, of 1700000000000]
    test_priv_decrypt
  by (simp add: test_config_def)

text \<open>
  Claim C9 (undecodable tokens). When base-62 decoding fails, \<^verbatim>\<open>isValid\<close> goes on with
  the timestamp 0: after the key is derived, the answer is the truth of
  \<open>0 < now < maxTokenAge\<close>, so it is negative at every reading \<open>now \<ge> maxTokenAge\<close>. The
  cipher has no part in it: the answer is the same whatever the two cipher functions are.
\<close>

theorem isValid_undecodable:
  assumes "username \<noteq> []" "priv_createKey lib this username = Inr key"
    and "base62_decode_fn lib token = Inl err"
  shows "isValid lib this token username now = Inr (0 < now \<and> now < maxTokenAge this)
         \<and> (maxTokenAge this \<le> now \<longrightarrow> isValid lib this token username now = Inr False)
         \<and> (\<forall>enc dec. isValid (lib\<lparr>bf_encrypt := enc, bf_decrypt := dec\<rparr>) this token username now
                = isValid lib this token username now)"
proof -
  have d: "priv_decrypt lib this token username = Inr 0"
    by (rule priv_decrypt_undecodable [OF assms(2,3)])
  have d': "priv_decrypt (lib\<lparr>bf_encrypt := enc, bf_decrypt := dec\<rparr>) this token username = Inr 0" for enc dec
  proof -
    have "priv_createKey (lib\<lparr>bf_encrypt := enc, bf_decrypt := dec\<rparr>) this username
          = priv_createKey lib this username"
      by (simp add: priv_createKey_def Let_def)
    with assms(2,3) show ?thesis
      by (intro priv_decrypt_undecodable [where key = key and err = err]) simp_all
  qed
  show ?thesis
    using assms(1) by (auto simp: isValid_def d d' waterfall_simps)
qed

theorem isValid_undecodable_witness:
  "''alice'' \<noteq> []
   \<and> priv_createKey test_modules test_config ''alice''
       = Inr [97, 108, 105, 99, 101, 115, 104, 104, 45, 116, 104, 105, 115, 45, 105, 115]
   \<and> base62_decode_fn test_modules ''not-a-valid-base62-string!!'' = Inl FormatError
   \<and> isValid test_modules test_config ''not-a-valid-base62-string!!'' ''alice'' 1700000000000
       = Inr False
   \<and> isValid test_modules test_config ''not-a-valid-base62-string!!'' ''alice'' 1000 = Inr True"
proof -
  have d: "base62_decode_fn test_modules ''not-a-valid-base62-string!!'' = Inl FormatError"
    by (simp add: test_modules_def decode_example)
  have u: "''alice'' \<noteq> []" by simp
  show ?thesis
    using isValid_undecodable [OF u test_createKey d, of 1700000000000]
      isValid_undecodable [OF u test_createKey d, of 1000] test_createKey d
    by (simp add: test_config_def)
qed

text \<open>
  When \<^verbatim>\<open>isValid\<close> answers at all: with a user name, a derived key, a cipher that keeps
  the block length, and a decoder that fails or yields one 8-byte block, it returns a
  boolean and no error.
\<close>

lemma buffer_to_timestamp_total:
  assumes "length buf = 8"
  shows "\<exists>t. buffer_to_timestamp buf = Inr t"
  using assms by (simp add: buffer_to_timestamp_def readUInt32BE_def waterfall_simps)

lemma isValid_returns:
  assumes "username \<noteq> []" "priv_createKey lib this username = Inr key" "cipher_inverse lib"
    and "\<And>encrypted. base62_decode_fn lib token = Inr encrypted \<Longrightarrow> length encrypted = 8"
  shows "\<exists>valid. isValid lib this token username now = Inr valid"
proof (cases "base62_decode_fn lib token")
  case (Inl err)
  from priv_decrypt_undecodable [OF assms(2) Inl] assms(1) show ?thesis
    by (simp add: isValid_def waterfall_simps)
next
  case (Inr encrypted)
  then have len: "length encrypted = 8" by (rule assms(4))
  with assms(3) have "length (bf_decrypt lib key (iv this) encrypted) = 8"
    by (simp add: cipher_inverse_def)
  from buffer_to_timestamp_total [OF this] obtain t where
    "buffer_to_timestamp (bf_decrypt lib key (iv this) encrypted) = Inr t" by blast
  with priv_decrypt_block [OF assms(2) Inr len] assms(1) show ?thesis
    by (simp add: isValid_def waterfall_simps)
qed

text \<open>
  Claim C3 (malformed tokens). The claim is that malformed token text always gives a
  negative answer. A handler whose window is longer than the clock reading (here a window
  of 2e12 ms at the reading 1.7e12 ms) answers \<open>True\<close> for the token
  \<^verbatim>\<open>not-a-valid-base62-string!!\<close>, which does not decode.
\<close>

theorem malformed_token_accepted:
  "constructor ''shh-this-is-our-secret'' (JSNumber 2000000000000)
     = Inr (test_config\<lparr>maxTokenAge := 2000000000000\<rparr>)
   \<and> base62_decode_fn test_modules ''not-a-valid-base62-string!!'' = Inl FormatError
   \<and> isValid test_modules (test_config\<lparr>maxTokenAge := 2000000000000\<rparr>)
        ''not-a-valid-base62-string!!'' ''alice'' 1700000000000 = Inr True"
proof -
  let ?cfg = "test_config\<lparr>maxTokenAge := 2000000000000\<rparr>"
  have c: "constructor ''shh-this-is-our-secret'' (JSNumber 2000000000000) = Inr ?cfg"
    by (simp add: constructor_def test_config_def fill_def alloc_8)
  have d: "base62_decode_fn test_modules ''not-a-valid-base62-string!!'' = Inl FormatError"
    by (simp add: test_modules_def decode_example)
  have k: "priv_createKey test_modules ?cfg ''alice''
           = Inr [97, 108, 105, 99, 101, 115, 104, 104, 45, 116, 104, 105, 115, 45, 105, 115]"
    by (simp add: priv_createKey_def test_modules_def test_config_def Buffer_from_def)
  have "priv_decrypt test_modules ?cfg ''not-a-valid-base62-string!!'' ''alice'' = Inr 0"
    by (rule priv_decrypt_undecodable [OF k d])
  then have "isValid test_modules ?cfg ''not-a-valid-base62-string!!'' ''alice'' 1700000000000
             = Inr True"
    by (simp add: isValid_def waterfall_simps)
  with c d show ?thesis by simp
qed

section \<open>The timestamp in the buffer\<close>

text \<open>
  Claim C4 (two 32-bit words). For a timestamp that is the value of a JavaScript number
  (every integer up to 2^53 is) and that \<^verbatim>\<open>writeUInt32BE\<close> accepts, the step
  \<^verbatim>\<open>timestamp -> buffer\<close> yields 8 bytes whose first big-endian 32-bit word is
  \<open>\<lfloor>now / 2^32\<rfloor>\<close> and whose second is \<open>now mod 2^32\<close>; this buffer is what \<^verbatim>\<open>_encrypt\<close>
  hands to the cipher, and from it the step \<^verbatim>\<open>buffer -> timestamp\<close> of \<^verbatim>\<open>_decrypt\<close>
  rebuilds \<open>now\<close> as high word times 2^32 plus low word.
\<close>

theorem timestamp_words:
  assumes "0 \<le> now" "now \<le> 0xffffffff * 2 ^ 32" "to_double now = now"
  shows "\<exists>buffer. timestamp_to_buffer now = Inr buffer \<and> length buffer = 8
           \<and> readUInt32BE buffer 0 = Inr \<lfloor>real_of_int now / 2 ^ 32\<rfloor>
           \<and> readUInt32BE buffer 4 = Inr (now mod 2 ^ 32)
           \<and> buffer_to_timestamp buffer = Inr now
           \<and> (\<forall>lib this username key. priv_createKey lib this username = Inr key \<longrightarrow>
                 priv_encrypt lib this now username
                 = Inr (base62_encode_fn lib (bf_encrypt lib key (iv this) buffer)))
           \<and> (\<forall>lib this username key token encrypted.
                 priv_createKey lib this username = Inr key
                 \<and> base62_decode_fn lib token = Inr encrypted \<and> length encrypted = 8
                 \<and> bf_decrypt lib key (iv this) encrypted = buffer \<longrightarrow>
                 priv_decrypt lib this token username = Inr now)"
proof -
  have r: "0 \<le> now" "now \<le> 18446744069414584320" using assms by simp_all
  have hi: "0 \<le> now div 2 ^ 32" "now div 2 ^ 32 < 2 ^ 32"
  proof -
    show "0 \<le> now div 2 ^ 32" using r(1) by (simp add: div_int_pos_iff)
    have "now div 2 ^ 32 \<le> 18446744069414584320 div 2 ^ 32"
      using r(2) by (intro zdiv_mono1) simp_all
    then show "now div 2 ^ 32 < 2 ^ 32" by simp
  qed
  have lo: "0 \<le> now mod 2 ^ 32" "now mod 2 ^ 32 < 2 ^ 32" by simp_all
  have fl: "\<lfloor>real_of_int now / 2 ^ 32\<rfloor> = now div 2 ^ 32"
    using floor_quotient [of now] by (simp add: UINT32_CAPACITY_def)
  have 1: "timestamp_to_buffer now = Inr (tsbuf now)"
    unfolding tsbuf_def by (rule timestamp_to_buffer_eq [OF assms(1,2)])
  have 2: "readUInt32BE (tsbuf now) 0 = Inr \<lfloor>real_of_int now / 2 ^ 32\<rfloor>"
    unfolding fl using readUInt32BE_0 [OF hi] by (simp add: tsbuf_def be32_def)
  have 3: "readUInt32BE (tsbuf now) 4 = Inr (now mod 2 ^ 32)"
    using readUInt32BE_4 [OF lo] by (simp add: tsbuf_def be32_def)
  have 4: "buffer_to_timestamp (tsbuf now) = Inr now"
    by (rule buffer_to_timestamp_tsbuf [OF assms])
  have 5: "priv_encrypt lib this now username
           = Inr (base62_encode_fn lib (bf_encrypt lib key (iv this) (tsbuf now)))"
    if "priv_createKey lib this username = Inr key" for lib this username key
    by (rule priv_encrypt_eq [OF that assms(1,2)])
  have 6: "priv_decrypt lib this token username = Inr now"
    if "priv_createKey lib this username = Inr key"
      "base62_decode_fn lib token = Inr encrypted" "length encrypted = 8"
      "bf_decrypt lib key (iv this) encrypted = tsbuf now"
    for lib this username key token encrypted
    unfolding priv_decrypt_block [OF that(1,2,3)] that(4) by (rule 4)
  show ?thesis
    using 1 2 3 4 5 6 length_tsbuf [of now] by blast
qed

theorem timestamp_words_witness:
  "(0::int) \<le> 1700000000000 \<and> (1700000000000::int) \<le> 0xffffffff * 2 ^ 32
   \<and> to_double 1700000000000 = 1700000000000
   \<and> timestamp_to_buffer 1700000000000 = Inr [0, 0, 1, 139, 207, 229, 104, 0]
   \<and> readUInt32BE [0, 0, 1, 139, 207, 229, 104, 0] 0 = Inr 395
   \<and> readUInt32BE [0, 0, 1, 139, 207, 229, 104, 0] 4 = Inr 3487918080
   \<and> buffer_to_timestamp [0, 0, 1, 139, 207, 229, 104, 0] = Inr 1700000000000"
proof -
  have b: "timestamp_to_buffer 1700000000000 = Inr [0, 0, 1, 139, 207, 229, 104, 0]"
    using timestamp_to_buffer_eq [of 1700000000000] by (simp add: be32_def)
  have d: "to_double 1700000000000 = 1700000000000"
    by (rule to_double_safe) simp_all
  from timestamp_words [of 1700000000000] b d show ?thesis by simp
qed

text \<open>
  Above 2^53 the rebuilt timestamp is the rounded one: the block of 2^53 + 1, which no
  number holds, is read as 2^53.
\<close>

lemma buffer_to_timestamp_rounds:
  "buffer_to_timestamp [0, 32, 0, 0, 0, 0, 0, 1] = Inr 9007199254740992"
proof -
  have p: "to_double 9007199254740992 = 9007199254740992"
    by (rule to_double_exact [where k = 1]) simp_all
  have "js_add (js_add 0 (js_mul 2097152 4294967296)) 1 = 9007199254740992"
    by (simp add: js_add_def js_mul_def p to_double_example)
  then show ?thesis
    by (simp add: buffer_to_timestamp_def readUInt32BE_def boundsError_def waterfall_def
        UINT32_CAPACITY_def)
qed

section \<open>Key derivation\<close>



lemma hmac_sha512_trailing_zero:
  assumes "length key < 128"
  shows "hmac_sha512 (key @ [0]) = hmac_sha512 key"
proof
  fix msg
  have "128 - length key = Suc (128 - length (key @ [0]))" using assms by simp
  then have "replicate (128 - length key) (0::byte) = 0 # replicate (128 - length (key @ [0])) 0"
    by (simp only: replicate_Suc)
  then have "(key @ [0]) @ replicate (128 - length (key @ [0])) 0
             = key @ replicate (128 - length key) 0"
    by simp
  moreover have "\<not> 128 < length (key @ [0])" "\<not> 128 < length key" using assms by simp_all
  ultimately show "hmac_sha512 (key @ [0]) msg = hmac_sha512 key msg"
    by (simp only: hmac_sha512_def if_False Let_def)
qed

lemma pbkdf2_trailing_zero:
  assumes "length password < 128"
  shows "pbkdf2_hmac_sha512 (password @ [0]) salt c dkLen = pbkdf2_hmac_sha512 password salt c dkLen"
  by (simp only: pbkdf2_hmac_sha512_def hmac_sha512_trailing_zero [OF assms])

lemma Buffer_from_NUL: "Buffer_from (s @ [CHR 0x00]) = Buffer_from s @ [0]"
  by (simp add: Buffer_from_def)

lemma length_sha512_round: "length s = 8 \<Longrightarrow> length (sha512_round s kw) = 8"
proof -
  assume "length s = 8"
  then obtain a b c d e f g h where s: "s = [a, b, c, d, e, f, g, h]"
    by (auto simp: length_Suc_conv numeral_eq_Suc)
  obtain k w where kw: "kw = (k, w)" by (cases kw)
  show ?thesis unfolding s kw by (simp add: Let_def)
qed

lemma length_foldl_round: "length s = 8 \<Longrightarrow> length (foldl sha512_round s kws) = 8"
  by (induction kws arbitrary: s) (simp_all add: length_sha512_round)

lemma length_sha512_compress: "length hs = 8 \<Longrightarrow> length (sha512_compress hs block) = 8"
  by (simp add: sha512_compress_def Let_def length_foldl_round)

lemma length_foldl_compress:
  "length hs = 8 \<Longrightarrow> length (foldl sha512_compress hs blocks) = 8"
  by (induction blocks arbitrary: hs) (simp_all add: length_sha512_compress)

lemma length_concat_bytes: "length (concat (map bytes_of_word64 ws)) = 8 * length ws"
  by (induction ws) (simp_all add: bytes_of_word64_def)

lemma length_sha512: "length (sha512 msg) = 64"
proof -
  have "length sha512_H0 = 8" by (simp add: sha512_H0_def sha512_primes_def)
  then show ?thesis
    by (simp add: sha512_def Let_def length_concat_bytes length_foldl_compress)
qed

lemma length_hmac_sha512: "length (hmac_sha512 key msg) = 64"
  by (simp add: hmac_sha512_def Let_def length_sha512)

lemma length_pbkdf2_iterate:
  "length t = 64 \<Longrightarrow> (\<And>x. length (prf x) = 64) \<Longrightarrow> length (pbkdf2_iterate prf n u t) = 64"
  by (induction n arbitrary: u t) (simp_all add: Let_def)

lemma length_pbkdf2_block:
  "(\<And>x. length (prf x) = 64) \<Longrightarrow> length (pbkdf2_block prf salt c i) = 64"
  by (simp add: pbkdf2_block_def Let_def length_pbkdf2_iterate)

lemma length_pbkdf2_16: "length (pbkdf2_hmac_sha512 password salt c 16) = 16"
proof -
  have "[1..<Suc ((16 + 63) div 64)] = [1]" by (simp add: upt_rec)
  then show ?thesis
    by (simp add: pbkdf2_hmac_sha512_def length_pbkdf2_block length_hmac_sha512)
qed

lemma createKey_runtime:
  assumes "pbkdf2 lib = crypto_pbkdf2" "pbkdf2_length lib \<noteq> 5"
  shows "priv_createKey lib this username
         = Inr (pbkdf2_hmac_sha512 (Buffer_from username) (secret this) (iterations this) 16)"
  using assms by (simp add: priv_createKey_def Let_def crypto_pbkdf2_def)

lemma createKey_NUL_general:
  assumes "pbkdf2 lib = crypto_pbkdf2" "length username < 128"
  shows "priv_createKey lib this (username @ [CHR 0x00]) = priv_createKey lib this username"
proof -
  have "length (Buffer_from username) < 128" using assms(2) by (simp add: Buffer_from_def)
  from pbkdf2_trailing_zero [OF this] show ?thesis
    by (simp add: priv_createKey_def Let_def assms(1) crypto_pbkdf2_def Buffer_from_NUL)
qed

lemma pbkdf2_modules_fields:
  "pbkdf2 pbkdf2_modules = crypto_pbkdf2" "pbkdf2_length pbkdf2_modules \<noteq> 5"
  by (simp_all add: pbkdf2_modules_def test_modules_def)

text \<open>
  Claim C6 (distinct users, distinct keys), as amended. Key derivation is not injective
  in the user name. PBKDF2 takes the bytes of the user name as the key of HMAC-SHA-512,
  and HMAC pads its key with zero bytes to 128 bytes: on a runtime with this key
  derivation, a user name of fewer than 128 bytes and the same name followed by the
  character U+0000 are two different user names with the same 16-byte key, under every
  secret.
\<close>

theorem createKey_trailing_NUL:
  assumes "pbkdf2 lib = crypto_pbkdf2" "pbkdf2_length lib \<noteq> 5" "length username < 128"
  shows "username @ [CHR 0x00] \<noteq> username
         \<and> (\<exists>key. length key = 16 \<and> priv_createKey lib this username = Inr key
               \<and> priv_createKey lib this (username @ [CHR 0x00]) = Inr key)"
  using createKey_runtime [OF assms(1,2), of this username]
    createKey_NUL_general [OF assms(1,3), of this] length_pbkdf2_16
  by simp

theorem createKey_trailing_NUL_witness:
  "pbkdf2 pbkdf2_modules = crypto_pbkdf2 \<and> pbkdf2_length pbkdf2_modules \<noteq> 5
   \<and> length ''alice'' < 128
   \<and> ''alice'' @ [CHR 0x00] \<noteq> ''alice''
   \<and> (\<exists>key. length key = 16 \<and> priv_createKey pbkdf2_modules test_config ''alice'' = Inr key
         \<and> priv_createKey pbkdf2_modules test_config (''alice'' @ [CHR 0x00]) = Inr key)"
  using createKey_trailing_NUL [OF pbkdf2_modules_fields, of "''alice''" test_config] pbkdf2_modules_fields
  by simp

text \<open>
  Against C6 as it is stated: \<^verbatim>\<open>alice\<close> and \<^verbatim>\<open>alice\<close> followed by U+0000 are distinct
  non-empty user names, and both have the key that PBKDF2 derives from the bytes of
  \<^verbatim>\<open>alice\<close>.
\<close>

theorem createKey_injective_counterexample:
  "''alice'' \<noteq> [] \<and> ''alice'' @ [CHR 0x00] \<noteq> [] \<and> ''alice'' \<noteq> ''alice'' @ [CHR 0x00]
   \<and> priv_createKey pbkdf2_modules test_config ''alice''
       = Inr (pbkdf2_hmac_sha512 (Buffer_from ''alice'') (Buffer_from ''shh-this-is-our-secret'')
                1000 16)
   \<and> priv_createKey pbkdf2_modules test_config (''alice'' @ [CHR 0x00])
       = Inr (pbkdf2_hmac_sha512 (Buffer_from ''alice'') (Buffer_from ''shh-this-is-our-secret'')
                1000 16)"
proof -
  have k: "priv_createKey pbkdf2_modules test_config ''alice''
       = Inr (pbkdf2_hmac_sha512 (Buffer_from ''alice'') (Buffer_from ''shh-this-is-our-secret'')
                1000 16)"
    using createKey_runtime [OF pbkdf2_modules_fields, of test_config "''alice''"]
    by (simp add: test_config_def)
  have "priv_createKey pbkdf2_modules test_config (''alice'' @ [CHR 0x00])
        = priv_createKey pbkdf2_modules test_config ''alice''"
    by (rule createKey_NUL_general [OF pbkdf2_modules_fields(1)]) simp
  with k show ?thesis by simp
qed

section \<open>The shape of tokens\<close>

lemma digits62_nonempty: "digits62 n \<noteq> []"
  by (subst digits62.simps) simp

lemma length_digits62_le: "n < 62 ^ Suc k \<Longrightarrow> length (digits62 n) \<le> Suc k"
proof (induction k arbitrary: n)
  case 0
  then show ?case by (subst digits62.simps) simp
next
  case (Suc k)
  show ?case
  proof (cases "n < 62")
    case True
    then show ?thesis by (subst digits62.simps) simp
  next
    case False
    from Suc.prems have "n div 62 < 62 ^ Suc k"
      by (simp add: less_mult_imp_div_less mult.commute)
    then have "length (digits62 (n div 62)) \<le> Suc k" by (rule Suc.IH)
    with False show ?thesis by (subst digits62.simps) simp
  qed
qed

lemma length_digits62_gt: "62 ^ k \<le> n \<Longrightarrow> k < length (digits62 n)"
proof (induction k arbitrary: n)
  case 0
  then show ?case using digits62_nonempty [of n] by (cases "digits62 n") simp_all
next
  case (Suc k)
  have "62 ^ k \<le> n div 62"
    using Suc.prems by (simp add: less_eq_div_iff_mult_less_eq mult.commute)
  then have "k < length (digits62 (n div 62))" by (rule Suc.IH)
  moreover have "\<not> n < 62"
  proof
    assume "n < 62"
    moreover have "(62::nat) \<le> 62 ^ Suc k" by simp
    ultimately show False using Suc.prems by linarith
  qed
  ultimately show ?case by (subst digits62.simps) simp
qed

lemma toBigInt_less: "toBigInt bs < 256 ^ length bs"
proof (induction bs rule: rev_induct)
  case Nil
  then show ?case by (simp add: toBigInt_Nil)
next
  case (snoc b bs)
  have "toBigInt bs * 256 + unat b < (toBigInt bs + 1) * 256"
    using unat_byte_less [of b] by simp
  also have "\<dots> \<le> 256 ^ length bs * 256"
    using snoc.IH by (intro mult_le_mono1) simp
  finally show ?case by (simp add: toBigInt_snoc)
qed

lemma base62_encode_alphabet: "set (base62_encode bs) \<subseteq> set CHARSET"
  using digits62_bound by (auto simp: base62_encode_def length_CHARSET)

lemma length_base62_encode:
  assumes "length bs = 8"
  shows "1 \<le> length (base62_encode bs)" "length (base62_encode bs) \<le> 11"
    "10 \<le> length (base62_encode bs) \<longleftrightarrow> 62 ^ 9 \<le> toBigInt bs"
proof -
  have len: "length (base62_encode bs) = length (digits62 (toBigInt bs))"
    by (simp add: base62_encode_def)
  show "1 \<le> length (base62_encode bs)"
    unfolding len using digits62_nonempty [of "toBigInt bs"]
    by (cases "digits62 (toBigInt bs)") simp_all
  have "toBigInt bs < 256 ^ 8" using toBigInt_less [of bs] assms by simp
  also have "(256::nat) ^ 8 \<le> 62 ^ Suc 10" by simp
  finally show "length (base62_encode bs) \<le> 11"
    unfolding len using length_digits62_le [of "toBigInt bs" 10] by simp
  show "10 \<le> length (base62_encode bs) \<longleftrightarrow> 62 ^ 9 \<le> toBigInt bs"
  proof
    assume "62 ^ 9 \<le> toBigInt bs"
    then show "10 \<le> length (base62_encode bs)"
      unfolding len using length_digits62_gt [of 9 "toBigInt bs"] by simp
  next
    assume l: "10 \<le> length (base62_encode bs)"
    show "62 ^ 9 \<le> toBigInt bs"
    proof (rule ccontr)
      assume "\<not> 62 ^ 9 \<le> toBigInt bs"
      then have "toBigInt bs < 62 ^ Suc 8" by simp
      then have "length (digits62 (toBigInt bs)) \<le> Suc 8" by (rule length_digits62_le)
      with l show False unfolding len by simp
    qed
  qed
qed

text \<open>
  Claim C8 (base-62 round trip). Decoding inverts encoding on every 8-byte sequence,
  leading zero bytes included, and the encoding is never the empty string.
\<close>

theorem base62_decode_encode:
  assumes "length b = 8"
  shows "base62_decode (base62_encode b) = Inr b \<and> base62_encode b \<noteq> []"
proof -
  have "base62_encode b \<noteq> []"
    by (simp add: base62_encode_def digits62_nonempty)
  with base62_roundtrip [OF assms] show ?thesis by simp
qed

theorem base62_decode_encode_witness:
  "length [0, 0, 0, 0, 0, 0, 0, 0 :: byte] = 8
   \<and> base62_encode [0, 0, 0, 0, 0, 0, 0, 0] = ''0''
   \<and> base62_decode ''0'' = Inr [0, 0, 0, 0, 0, 0, 0, 0]"
proof -
  have e: "base62_encode [0, 0, 0, 0, 0, 0, 0, 0] = ''0''"
    by (simp add: base62_encode_def toBigInt_def digits62.simps CHARSET_def)
  show ?thesis
    using base62_decode_encode [of "[0, 0, 0, 0, 0, 0, 0, 0]"] by (simp add: e)
qed

text \<open>
  On this codec a token is the encoding of the 8-byte ciphertext: a non-empty string over
  the 62 digits of at most 11 characters, with 10 or 11 characters exactly when the
  ciphertext, read as a big-endian integer, is at least 62^9. A block below 62^9 has a
  shorter encoding.
\<close>

lemma createToken_encoding:
  assumes "base62_encode_fn lib = base62_encode" "cipher_inverse lib"
    and "createToken lib this username now = Inr token"
  shows "\<exists>key. priv_createKey lib this username = Inr key
           \<and> token = base62_encode (bf_encrypt lib key (iv this) (tsbuf now))
           \<and> set token \<subseteq> set CHARSET \<and> 1 \<le> length token \<and> length token \<le> 11
           \<and> (10 \<le> length token
                \<longleftrightarrow> 62 ^ 9 \<le> toBigInt (bf_encrypt lib key (iv this) (tsbuf now)))"
proof -
  from assms(3) have "priv_encrypt lib this now username = Inr token"
    by (auto simp: createToken_def split: if_splits)
  from priv_encrypt_Inr [OF this] obtain key where
    key: "priv_createKey lib this username = Inr key"
    and token: "token = base62_encode_fn lib (bf_encrypt lib key (iv this) (tsbuf now))"
    by blast
  let ?c = "bf_encrypt lib key (iv this) (tsbuf now)"
  from assms(2) have len: "length ?c = 8"
    by (simp add: cipher_inverse_def length_tsbuf)
  have t: "token = base62_encode ?c" by (simp add: token assms(1))
  show ?thesis
    unfolding t using key length_base62_encode [OF len] base62_encode_alphabet [of ?c]
    by blast
qed

lemma base62_encode_blocks:
  "base62_encode [116, 144, 121, 163, 47, 133, 207, 188] = ''A0T66xan6eS''"
  "base62_encode [0, 11, 193, 144, 57, 90, 195, 111] = ''F9dg8MHkt''"
  by (simp_all add: base62_encode_def toBigInt_def digits62.simps CHARSET_def)

section \<open>The constructor\<close>

text \<open>
  Claim C10 (default window). With a secret, the constructor sets the window to 900000
  milliseconds when the argument \<^verbatim>\<open>maxTokenAge\<close> is falsy (absent, \<^verbatim>\<open>null\<close> or 0), and to
  the argument itself when it is truthy, that is any other number, negative ones
  included.
\<close>

theorem constructor_maxTokenAge:
  assumes "s \<noteq> []"
  shows "(\<not> truthy mta \<longrightarrow> map_sum id maxTokenAge (constructor s mta) = Inr 900000)
         \<and> (truthy (JSNumber n) \<longrightarrow>
               map_sum id maxTokenAge (constructor s (JSNumber n)) = Inr n)"
  using assms by (cases mta) (simp_all add: constructor_def)

theorem constructor_maxTokenAge_witness:
  "''shh'' \<noteq> []
   \<and> map_sum id maxTokenAge (constructor ''shh'' JSUndefined) = Inr 900000
   \<and> map_sum id maxTokenAge (constructor ''shh'' JSNull) = Inr 900000
   \<and> map_sum id maxTokenAge (constructor ''shh'' (JSNumber 0)) = Inr 900000
   \<and> map_sum id maxTokenAge (constructor ''shh'' (JSNumber (- 5))) = Inr (- 5)"
  using constructor_maxTokenAge [of "''shh''" JSUndefined "- 5"]
    constructor_maxTokenAge [of "''shh''" JSNull "- 5"]
    constructor_maxTokenAge [of "''shh''" "JSNumber 0" "- 5"]
  by simp

end
